theory Spec2Isabelle
  imports Main
begin

section \<open>Strings, whitespace and the string methods the program uses\<close>

text \<open>
  The program is Python. Its strings are sequences of code points; here a string is a
  \<open>char list\<close>, so the model covers the code points below 256 (Latin-1). On that
  range \<open>str.isspace\<close>, which decides both \<open>str.strip()\<close> and the regular
  expression class \<open>\s\<close>, holds for exactly the twelve characters listed below, and
  case-insensitive matching of a letter of the patterns relates an ASCII letter to its
  other case only.
\<close>

definition nl :: char where
  "nl = CHR 0x0A"

definition is_space :: "char \<Rightarrow> bool" where
  "is_space c = (c \<in> set [CHR 0x09, CHR 0x0A, CHR 0x0B, CHR 0x0C, CHR 0x0D, CHR 0x1C,
                          CHR 0x1D, CHR 0x1E, CHR 0x1F, CHR 0x20, CHR 0x85, CHR 0xA0])"

text \<open>\<open>s.strip()\<close>: drop the whitespace at both ends.\<close>

definition py_strip :: "string \<Rightarrow> string" where
  "py_strip s = rev (dropWhile is_space (rev (dropWhile is_space s)))"

text \<open>\<open>s.split('\n')\<close>: the pieces between newlines; never an empty list.\<close>

fun py_split_nl :: "string \<Rightarrow> string list" where
  "py_split_nl [] = [[]]"
| "py_split_nl (c # cs) =
     (if c = nl then [] # py_split_nl cs
      else (case py_split_nl cs of
              [] \<Rightarrow> [[c]]
            | l # ls \<Rightarrow> (c # l) # ls))"

text \<open>\<open>'\n'.join(ls)\<close>.\<close>

fun py_join_nl :: "string list \<Rightarrow> string" where
  "py_join_nl [] = []"
| "py_join_nl [l] = l"
| "py_join_nl (l # ls) = l @ nl # py_join_nl ls"

text \<open>\<open>s.startswith(p)\<close>.\<close>

definition starts_with :: "string \<Rightarrow> string \<Rightarrow> bool" where
  "starts_with p s = (take (length p) s = p)"

text \<open>Lower case of an ASCII letter; every other character is left alone.\<close>

definition lower_table :: "(char \<times> char) list" where
  "lower_table = zip ''ABCDEFGHIJKLMNOPQRSTUVWXYZ'' ''abcdefghijklmnopqrstuvwxyz''"

definition lower :: "char \<Rightarrow> char" where
  "lower c = (case map_of lower_table c of Some d \<Rightarrow> d | None \<Rightarrow> c)"

text \<open>The text starts with the word, compared without regard to case (\<open>re.IGNORECASE\<close>).\<close>

definition ci_starts_with :: "string \<Rightarrow> string \<Rightarrow> bool" where
  "ci_starts_with w s = (map lower (take (length w) s) = map lower w)"

section \<open>Regular-expression substitution\<close>

text \<open>
  \<open>re.sub(pattern, repl, text)\<close> scans the text from the left. At each position it asks
  whether the pattern matches there; if so the matched characters are replaced by
  \<open>repl\<close> and the scan goes on behind the match, otherwise the character is kept and
  the scan moves one position on. A matcher gets the character before the position
  (\<open>None\<close> at the start of the text; the anchor \<open>^\<close> looks at it) and the text from
  the position on, and returns the length of the match the backtracking engine finds there.
  None of the program's patterns matches the empty string, and no match is longer than the
  text left; a matcher result outside that range counts as no match.
\<close>

type_synonym matcher = "char option \<Rightarrow> string \<Rightarrow> nat option"

function re_sub :: "matcher \<Rightarrow> string \<Rightarrow> char option \<Rightarrow> string \<Rightarrow> string" where
  "re_sub m repl prev s =
     (if s = [] then []
      else (case m prev s of
              None \<Rightarrow> hd s # re_sub m repl (Some (hd s)) (tl s)
            | Some n \<Rightarrow>
                if 0 < n \<and> n \<le> length s
                then repl @ re_sub m repl (Some (s ! (n - 1))) (drop n s)
                else hd s # re_sub m repl (Some (hd s)) (tl s)))"
  by pat_completeness auto
termination
  by (relation "measure (\<lambda>(m, repl, prev, s). length s)") auto

declare re_sub.simps [simp del]

text \<open>\<open>^\<close> under \<open>re.MULTILINE\<close>: the start of the text, or just behind a newline.\<close>

definition at_line_start :: "char option \<Rightarrow> bool" where
  "at_line_start prev = (prev = None \<or> prev = Some nl)"

text \<open>The rest of the current line: what a greedy \<open>.*\<close> takes without \<open>re.DOTALL\<close>.\<close>

definition line_rest :: "string \<Rightarrow> string" where
  "line_rest s = takeWhile (\<lambda>c. c \<noteq> nl) s"

text \<open>
  \<open>\n\s*\n\<close>: a newline, then the greedy \<open>\s*\<close> takes the whole run of whitespace
  and gives characters back until a newline follows, so the match ends with the last
  newline of that run; there is no match when the run holds no newline.
\<close>

definition m_blank_lines :: matcher where
  "m_blank_lines prev s =
     (case s of
        [] \<Rightarrow> None
      | c # cs \<Rightarrow>
          if c = nl then
            (let ws = takeWhile is_space cs in
             if nl \<in> set ws
             then Some (Suc (length ws - length (takeWhile (\<lambda>x. x \<noteq> nl) (rev ws))))
             else None)
          else None)"

text \<open>
  \<open>^(From|To|Date|Subject|Cc|Bcc):.*$\<close> with \<open>re.MULTILINE\<close>: at a line start, one
  of the labels in its listed capitalisation and a colon; \<open>.*$\<close> then takes the rest of
  the line, up to the newline or the end of the text.
\<close>

definition header_labels :: "string list" where
  "header_labels = [''From'', ''To'', ''Date'', ''Subject'', ''Cc'', ''Bcc'']"

definition m_header :: matcher where
  "m_header prev s =
     (if at_line_start prev \<and> list_ex (\<lambda>l. starts_with (l @ '':'') s) header_labels
      then Some (length (line_rest s)) else None)"

text \<open>\<open>^>.*$\<close> with \<open>re.MULTILINE\<close>.\<close>

definition m_quote :: matcher where
  "m_quote prev s =
     (if at_line_start prev \<and> starts_with ''>'' s
      then Some (length (line_rest s)) else None)"

text \<open>
  \<open>(Best regards|...),?\s*\n.*\<close> with \<open>re.IGNORECASE | re.DOTALL\<close>: one of the
  salutations in any capitalisation, a comma if there is one, whitespace up to and
  including a newline; \<open>.*\<close> then takes everything to the end of the text. The pattern has
  no anchor, so it is tried at every position.
\<close>

definition salutations_streamlit :: "string list" where
  "salutations_streamlit =
     [''Best regards'', ''Sincerely'', ''Thanks'', ''Regards'', ''Best'', ''Cheers'']"

definition salutations_tkinter :: "string list" where
  "salutations_tkinter = [''Best regards'', ''Sincerely'', ''Thanks'', ''Regards'', ''Best'']"

definition skip_comma :: "string \<Rightarrow> string" where
  "skip_comma s = (case s of [] \<Rightarrow> [] | c # cs \<Rightarrow> if c = CHR '','' then cs else s)"

definition salutation_at :: "string \<Rightarrow> string \<Rightarrow> bool" where
  "salutation_at w s =
     (ci_starts_with w s \<and> nl \<in> set (takeWhile is_space (skip_comma (drop (length w) s))))"

definition m_signature :: "string list \<Rightarrow> matcher" where
  "m_signature ws prev s =
     (if list_ex (\<lambda>w. salutation_at w s) ws then Some (length s) else None)"

text \<open>\<open>\n{3,}\<close>: a run of three or more newlines, taken whole.\<close>

definition m_newlines3 :: matcher where
  "m_newlines3 prev s =
     (let k = length (takeWhile (\<lambda>c. c = nl) s) in if 3 \<le> k then Some k else None)"

text \<open>
  \<open>^Subject:\s*\<close> with \<open>re.IGNORECASE\<close> and without \<open>re.MULTILINE\<close>: only at the
  start of the text.
\<close>

definition m_subject_label :: matcher where
  "m_subject_label prev s =
     (if prev = None \<and> ci_starts_with ''Subject:'' s
      then Some (8 + length (takeWhile is_space (drop 8 s))) else None)"

section \<open>The preprocessor\<close>

text \<open>
  \<open>extract_subject\<close> of \<open>email_summarizer_streamlit.py\<close>. The Python slice
  \<open>s[:k]\<close> is \<open>take k s\<close>.
\<close>

definition extract_subject_streamlit :: "string \<Rightarrow> string" where
  "extract_subject_streamlit email_text =
     (let lines = py_split_nl (py_strip email_text);
          first_line = (if lines \<noteq> [] then hd lines else take 60 email_text);
          subject = py_strip first_line;
          subject = re_sub m_subject_label [] None subject
      in if length subject > 60 then take 57 subject @ ''...'' else subject)"

text \<open>\<open>extract_subject\<close> of \<open>email_summarizer_tkinter.py\<close>.\<close>

definition extract_subject_tkinter :: "string \<Rightarrow> string" where
  "extract_subject_tkinter email_text =
     (let lines = py_split_nl (py_strip email_text);
          first_line = (if lines \<noteq> [] then hd lines else take 60 email_text);
          subject = py_strip first_line
      in if length subject > 60 then take 57 subject @ ''...'' else subject)"

text \<open>\<open>preprocess_email\<close> of \<open>email_summarizer_streamlit.py\<close>.\<close>

definition preprocess_email_streamlit :: "string \<Rightarrow> string" where
  "preprocess_email_streamlit email_text =
     (let text = re_sub m_blank_lines [nl, nl] None email_text;
          text = re_sub m_header [] None text;
          text = re_sub m_quote [] None text;
          text = re_sub (m_signature salutations_streamlit) [] None text;
          text = re_sub m_newlines3 [nl, nl] None text
      in py_strip text)"

text \<open>\<open>preprocess_email\<close> of \<open>email_summarizer_tkinter.py\<close>.\<close>

definition preprocess_email_tkinter :: "string \<Rightarrow> string" where
  "preprocess_email_tkinter email_text =
     (let text = re_sub m_blank_lines [nl, nl] None email_text;
          text = re_sub m_header [] None text;
          text = re_sub m_quote [] None text;
          text = re_sub (m_signature salutations_tkinter) [] None text
      in py_strip text)"

section \<open>The summarizer adapter\<close>

text \<open>
  The summarizer is the object returned by \<open>pipeline("summarization", ...)\<close>, a
  collaborator of the program. A call passes the text and the three keyword arguments. The
  call either raises an exception \<open>e\<close>, of which the program only uses \<open>str(e)\<close>,
  or returns a list of candidates, each a dictionary from keys to strings.
\<close>

record call =
  call_text :: string
  call_max_length :: nat
  call_min_length :: nat
  call_do_sample :: bool

type_synonym candidate = "string \<rightharpoonup> string"

datatype outcome = Raises string | Returns "candidate list"

type_synonym summarizer = "call \<Rightarrow> outcome"

text \<open>
  \<open>summary_result[0]['summary_text']\<close>: an empty list raises \<open>IndexError\<close>, a missing
  key raises \<open>KeyError\<close>; \<open>Inl\<close> carries \<open>str(e)\<close> of the exception.
\<close>

definition first_summary_text :: "candidate list \<Rightarrow> string + string" where
  "first_summary_text summary_result =
     (case summary_result of
        [] \<Rightarrow> Inl ''list index out of range''
      | c # _ \<Rightarrow>
          (case c ''summary_text'' of
             None \<Rightarrow> Inl ([CHR 0x27] @ ''summary_text'' @ [CHR 0x27])
           | Some t \<Rightarrow> Inr t))"

text \<open>The body of the \<open>try\<close> block: the call and the indexing; \<open>Inl\<close> is what \<open>except Exception as e\<close> catches.\<close>

definition generate :: "summarizer \<Rightarrow> call \<Rightarrow> string + string" where
  "generate summarizer c =
     (case summarizer c of
        Raises e \<Rightarrow> Inl e
      | Returns summary_result \<Rightarrow> first_summary_text summary_result)"

text \<open>What the user interface is made to show.\<close>

datatype ui_effect =
    Warning_shown string
  | Results_displayed string string
  | Error_box string string
  | Callback_raised string

text \<open>
  \<open>summarize_email\<close> of \<open>email_summarizer_streamlit.py\<close>. The result holds the
  returned triple, the effects on the page (\<open>st.warning\<close>; the text of the warning is
  given without its leading emoji) and the calls made to the summarizer, in order.
\<close>

record streamlit_result =
  res_subject :: string
  res_summary :: string
  res_success :: bool
  res_effects :: "ui_effect list"
  res_calls :: "call list"

definition summarize_email_streamlit :: "string \<Rightarrow> summarizer \<Rightarrow> streamlit_result" where
  "summarize_email_streamlit email_text summarizer =
     (let subject = extract_subject_streamlit email_text;
          processed_text = preprocess_email_streamlit email_text;
          max_length = 1024;
          too_long = (length processed_text > max_length);
          processed_text = (if too_long then take max_length processed_text else processed_text);
          effects = (if too_long
                     then [Warning_shown ''Email was truncated due to length limitations.'']
                     else []);
          c = \<lparr>call_text = processed_text, call_max_length = 150, call_min_length = 30,
               call_do_sample = False\<rparr>
      in (case generate summarizer c of
            Inr summary \<Rightarrow>
              \<lparr>res_subject = subject, res_summary = summary, res_success = True,
               res_effects = effects, res_calls = [c]\<rparr>
          | Inl e \<Rightarrow>
              \<lparr>res_subject = subject, res_summary = ''Error generating summary: '' @ e,
               res_success = False, res_effects = effects, res_calls = [c]\<rparr>))"

text \<open>
  \<open>perform_summarization\<close> of \<open>email_summarizer_tkinter.py\<close> runs on a worker thread
  and returns nothing: it hands a \<open>lambda\<close> to \<open>self.root.after(0, ...)\<close>, which the
  main loop of the window runs later. The lambda of the success path holds the values of
  \<open>subject\<close> and \<open>summary\<close>. The lambda of the \<open>except\<close> clause is
  \<open>lambda: self.summarization_error(str(e))\<close>: it reads the variable \<open>e\<close> when it
  runs, not when it is made. The result holds the calls made to the summarizer, the lambda
  scheduled, and \<open>str(e)\<close> for the exception bound to \<open>e\<close> inside the \<open>except\<close>
  clause, if that clause was entered.
\<close>

datatype scheduled =
    Display_results string string
  | Summarization_error_str_e

record tkinter_result =
  tk_calls :: "call list"
  tk_scheduled :: scheduled
  tk_e :: "string option"

definition perform_summarization_tkinter :: "string \<Rightarrow> summarizer \<Rightarrow> tkinter_result" where
  "perform_summarization_tkinter email_text summarizer =
     (let subject = extract_subject_tkinter email_text;
          processed_text = preprocess_email_tkinter email_text;
          max_length = 1024;
          processed_text = (if length processed_text > max_length
                            then take max_length processed_text else processed_text);
          c = \<lparr>call_text = processed_text, call_max_length = 150, call_min_length = 30,
               call_do_sample = False\<rparr>
      in (case generate summarizer c of
            Inr summary \<Rightarrow>
              \<lparr>tk_calls = [c], tk_scheduled = Display_results subject summary, tk_e = None\<rparr>
          | Inl e \<Rightarrow>
              \<lparr>tk_calls = [c], tk_scheduled = Summarization_error_str_e, tk_e = Some e\<rparr>))"

text \<open>
  Python unbinds the name of \<open>except Exception as e\<close> when the clause is left. The
  worker thread leaves the clause as soon as \<open>after\<close> has returned; the main loop runs
  the lambda on its own thread. So the lambda runs either while \<open>e\<close> is still bound or,
  when the worker is faster, after \<open>e\<close> has been unbound, and then reading \<open>e\<close>
  raises \<open>NameError\<close> inside the callback, before \<open>summarization_error\<close> is called.
  \<open>display_results\<close> fills the subject label and the summary box;
  \<open>summarization_error\<close> shows an error box with a title and a message.
\<close>

datatype callback_time = Within_except_clause | After_except_clause

definition run_scheduled :: "callback_time \<Rightarrow> tkinter_result \<Rightarrow> ui_effect list" where
  "run_scheduled t r =
     (case tk_scheduled r of
        Display_results subject summary \<Rightarrow> [Results_displayed subject summary]
      | Summarization_error_str_e \<Rightarrow>
          (case (t, tk_e r) of
             (Within_except_clause, Some error_msg) \<Rightarrow>
               [Error_box ''Summarization Error''
                  (''Failed to summarize the email:'' @ [nl] @ error_msg)]
           | _ \<Rightarrow> [Callback_raised ''NameError'']))"

section \<open>The specification's wording, for comparison\<close>


text \<open>
  Header removal as the specification words it, line by line: every full line that begins
  with one of the labels and a colon is deleted (its newline stays); every other line is
  kept as it is.
\<close>

definition is_header_line :: "string \<Rightarrow> bool" where
  "is_header_line l = list_ex (\<lambda>h. starts_with (h @ '':'') l) header_labels"

definition delete_header_lines :: "string \<Rightarrow> string" where
  "delete_header_lines s =
     py_join_nl (map (\<lambda>l. if is_header_line l then [] else l) (py_split_nl s))"

text \<open>
  A line that consists of a closing salutation, in any capitalisation, with or without a
  comma behind it: what the specification takes the start of a signature to be.
\<close>

definition is_salutation_line :: "string list \<Rightarrow> string \<Rightarrow> bool" where
  "is_salutation_line ws l =
     list_ex (\<lambda>w. map lower l = map lower w \<or> map lower l = map lower (w @ '','')) ws"

text \<open>
  The signature pattern read as a set of texts: at position \<open>i\<close> the text goes on with
  one of the salutations in some capitalisation, then a comma or none, then whitespace,
  then a newline.
\<close>

definition signature_at :: "string list \<Rightarrow> string \<Rightarrow> nat \<Rightarrow> bool" where
  "signature_at ws t i =
     (\<exists>w word comma gap rest.
        w \<in> set ws \<and> map lower word = map lower w \<and> (comma = [] \<or> comma = '','') \<and>
        list_all is_space gap \<and> i \<le> length t \<and> drop i t = word @ comma @ gap @ nl # rest)"

text \<open>The text has no position at which the signature pattern matches.\<close>

definition no_signature :: "string list \<Rightarrow> string \<Rightarrow> bool" where
  "no_signature ws s = (\<forall>i. \<not> signature_at ws s i)"

section \<open>Properties of the substitution scan\<close>

lemma re_sub_Nil [simp]: "re_sub m repl prev [] = []"
  by (simp add: re_sub.simps)

lemma re_sub_Cons:
  "re_sub m repl prev (c # cs) =
     (case m prev (c # cs) of
        None \<Rightarrow> c # re_sub m repl (Some c) cs
      | Some n \<Rightarrow>
          if 0 < n \<and> n \<le> Suc (length cs)
          then repl @ re_sub m repl (Some ((c # cs) ! (n - 1))) (drop n (c # cs))
          else c # re_sub m repl (Some c) cs)"
  by (subst re_sub.simps) (simp split: option.splits)

lemma re_sub_length:
  "(\<forall>p t n. m p t = Some n \<longrightarrow> length repl \<le> n) \<Longrightarrow>
   length (re_sub m repl prev s) \<le> length s"
proof (induction m repl prev s rule: re_sub.induct)
  case (1 m repl prev s)
  show ?case
  proof (cases s)
    case Nil
    then show ?thesis by simp
  next
    case (Cons c cs)
    then have ne: "s \<noteq> []" by simp
    show ?thesis
    proof (cases "m prev s")
      case None
      with 1(1)[OF ne None 1(4)] Cons show ?thesis
        by (simp add: re_sub_Cons)
    next
      case (Some n)
      show ?thesis
      proof (cases "0 < n \<and> n \<le> length s")
        case True
        have "length (re_sub m repl (Some (s ! (n - 1))) (drop n s)) \<le> length (drop n s)"
          using 1(2)[OF ne Some True 1(4)] .
        moreover have "length repl \<le> n" using 1(4) Some by blast
        ultimately show ?thesis using True Some Cons
          by (auto simp add: re_sub_Cons)
      next
        case F: False
        with 1(3)[OF ne Some F 1(4)] Some Cons show ?thesis
          by (auto simp add: re_sub_Cons)
      qed
    qed
  qed
qed

lemma takeWhile_neq_shorter: "x \<in> set xs \<Longrightarrow> length (takeWhile (\<lambda>y. y \<noteq> x) xs) < length xs"
  by (induction xs) auto

lemma m_blank_lines_ge2: "m_blank_lines p t = Some n \<Longrightarrow> 2 \<le> n"
proof -
  assume a: "m_blank_lines p t = Some n"
  then obtain c cs where t: "t = c # cs" by (cases t) (auto simp: m_blank_lines_def)
  let ?ws = "takeWhile is_space cs"
  from a t have mem: "nl \<in> set ?ws"
    by (auto simp: m_blank_lines_def Let_def split: if_splits)
  from a t mem have n: "n = Suc (length ?ws - length (takeWhile (\<lambda>x. x \<noteq> nl) (rev ?ws)))"
    by (auto simp: m_blank_lines_def Let_def split: if_splits)
  from mem have "length (takeWhile (\<lambda>x. x \<noteq> nl) (rev ?ws)) < length (rev ?ws)"
    by (intro takeWhile_neq_shorter) simp
  with n show ?thesis by simp
qed

lemma m_newlines3_ge3: "m_newlines3 p t = Some n \<Longrightarrow> 3 \<le> n"
  by (auto simp: m_newlines3_def Let_def split: if_splits)

lemma py_strip_length: "length (py_strip s) \<le> length s"
proof -
  have "length (py_strip s) \<le> length (dropWhile is_space s)"
    unfolding py_strip_def using length_dropWhile_le[of is_space "rev (dropWhile is_space s)"] by simp
  also have "\<dots> \<le> length s" by (rule length_dropWhile_le)
  finally show ?thesis .
qed

lemma re_sub_delete_length: "length (re_sub m [] prev s) \<le> length s"
  by (rule re_sub_length) simp

lemma re_sub_blank_length: "length (re_sub m_blank_lines [nl, nl] prev s) \<le> length s"
  by (rule re_sub_length) (auto dest: m_blank_lines_ge2)

lemma re_sub_newlines3_length: "length (re_sub m_newlines3 [nl, nl] prev s) \<le> length s"
  by (rule re_sub_length) (auto dest: m_newlines3_ge3)

lemma re_sub_replicate_no_match:
  "(\<And>p k. m p (replicate k a) = None) \<Longrightarrow> re_sub m repl prev (replicate n a) = replicate n a"
proof (induction n arbitrary: prev)
  case 0
  show ?case by simp
next
  case (Suc n)
  have "m prev (a # replicate n a) = None"
    using Suc.prems [of prev "Suc n"] by simp
  with Suc.IH [OF Suc.prems] show ?case
    by (simp add: re_sub_Cons)
qed

lemma starts_with_replicate:
  "p \<noteq> [] \<Longrightarrow> hd p \<noteq> a \<Longrightarrow> \<not> starts_with p (replicate k a)"
  by (cases p; cases k) (auto simp: starts_with_def)

lemma ci_starts_with_replicate:
  "w \<noteq> [] \<Longrightarrow> lower (hd w) \<noteq> lower a \<Longrightarrow> \<not> ci_starts_with w (replicate k a)"
  by (cases w; cases k) (auto simp: ci_starts_with_def)

lemma py_strip_replicate: "\<not> is_space a \<Longrightarrow> py_strip (replicate n a) = replicate n a"
  by (cases n) (simp_all add: py_strip_def replicate_append_same)

lemma preprocess_email_tkinter_replicate_a:
  "preprocess_email_tkinter (replicate n CHR ''a'') = replicate n CHR ''a''"
proof -
  let ?s = "replicate n CHR ''a''"
  have 1: "re_sub m_blank_lines [nl, nl] None ?s = ?s"
    by (rule re_sub_replicate_no_match) (case_tac k, simp_all add: m_blank_lines_def nl_def)
  have 2: "re_sub m_header [] None ?s = ?s"
    by (rule re_sub_replicate_no_match)
       (simp add: m_header_def header_labels_def starts_with_replicate)
  have 3: "re_sub m_quote [] None ?s = ?s"
    by (rule re_sub_replicate_no_match) (simp add: m_quote_def starts_with_replicate)
  have 4: "re_sub (m_signature salutations_tkinter) [] None ?s = ?s"
    by (rule re_sub_replicate_no_match)
       (simp add: m_signature_def salutations_tkinter_def salutation_at_def
          ci_starts_with_replicate lower_def lower_table_def)
  have 5: "py_strip ?s = ?s"
    by (rule py_strip_replicate) (simp add: is_space_def)
  show ?thesis
    by (simp add: preprocess_email_tkinter_def 1 2 3 4 5)
qed

section \<open>Properties of the summarizer adapter\<close>

text \<open>Both functions with the truncation written as \<open>take 1024\<close>.\<close>

lemma take_if_longer: "(if n < length xs then take n xs else xs) = take n xs"
  by simp

lemma summarize_email_streamlit_alt:
  "summarize_email_streamlit email_text summarizer =
     (case generate summarizer
             \<lparr>call_text = take 1024 (preprocess_email_streamlit email_text),
              call_max_length = 150, call_min_length = 30, call_do_sample = False\<rparr> of
        Inr summary \<Rightarrow>
          \<lparr>res_subject = extract_subject_streamlit email_text, res_summary = summary,
           res_success = True,
           res_effects = (if 1024 < length (preprocess_email_streamlit email_text)
                          then [Warning_shown ''Email was truncated due to length limitations.'']
                          else []),
           res_calls = [\<lparr>call_text = take 1024 (preprocess_email_streamlit email_text),
              call_max_length = 150, call_min_length = 30, call_do_sample = False\<rparr>]\<rparr>
      | Inl e \<Rightarrow>
          \<lparr>res_subject = extract_subject_streamlit email_text,
           res_summary = ''Error generating summary: '' @ e, res_success = False,
           res_effects = (if 1024 < length (preprocess_email_streamlit email_text)
                          then [Warning_shown ''Email was truncated due to length limitations.'']
                          else []),
           res_calls = [\<lparr>call_text = take 1024 (preprocess_email_streamlit email_text),
              call_max_length = 150, call_min_length = 30, call_do_sample = False\<rparr>]\<rparr>)"
  unfolding summarize_email_streamlit_def Let_def take_if_longer ..

lemma perform_summarization_tkinter_alt:
  "perform_summarization_tkinter email_text summarizer =
     (case generate summarizer
             \<lparr>call_text = take 1024 (preprocess_email_tkinter email_text),
              call_max_length = 150, call_min_length = 30, call_do_sample = False\<rparr> of
        Inr summary \<Rightarrow>
          \<lparr>tk_calls = [\<lparr>call_text = take 1024 (preprocess_email_tkinter email_text),
              call_max_length = 150, call_min_length = 30, call_do_sample = False\<rparr>],
           tk_scheduled = Display_results (extract_subject_tkinter email_text) summary,
           tk_e = None\<rparr>
      | Inl e \<Rightarrow>
          \<lparr>tk_calls = [\<lparr>call_text = take 1024 (preprocess_email_tkinter email_text),
              call_max_length = 150, call_min_length = 30, call_do_sample = False\<rparr>],
           tk_scheduled = Summarization_error_str_e, tk_e = Some e\<rparr>)"
  unfolding perform_summarization_tkinter_def Let_def take_if_longer ..

lemma summarize_email_streamlit_calls:
  "res_calls (summarize_email_streamlit email_text summarizer) =
     [\<lparr>call_text = take 1024 (preprocess_email_streamlit email_text), call_max_length = 150,
       call_min_length = 30, call_do_sample = False\<rparr>]"
  by (simp add: summarize_email_streamlit_alt split: sum.splits)

lemma summarize_email_streamlit_warns:
  "res_effects (summarize_email_streamlit email_text summarizer) =
     (if length (preprocess_email_streamlit email_text) > 1024
      then [Warning_shown ''Email was truncated due to length limitations.''] else [])"
  by (simp add: summarize_email_streamlit_alt split: sum.splits)

lemma summarize_email_streamlit_input_cap:
  "c \<in> set (res_calls (summarize_email_streamlit email_text summarizer)) \<Longrightarrow>
   length (call_text c) \<le> 1024"
  by (simp add: summarize_email_streamlit_calls)

lemma perform_summarization_tkinter_calls:
  "tk_calls (perform_summarization_tkinter email_text summarizer) =
     [\<lparr>call_text = take 1024 (preprocess_email_tkinter email_text), call_max_length = 150,
       call_min_length = 30, call_do_sample = False\<rparr>]"
  by (simp add: perform_summarization_tkinter_alt split: sum.splits)

lemma summarize_email_streamlit_failure:
  "generate summarizer
     \<lparr>call_text = take 1024 (preprocess_email_streamlit email_text), call_max_length = 150,
      call_min_length = 30, call_do_sample = False\<rparr> = Inl e \<Longrightarrow>
   res_success (summarize_email_streamlit email_text summarizer) = False \<and>
   res_summary (summarize_email_streamlit email_text summarizer) = ''Error generating summary: '' @ e \<and>
   length (res_calls (summarize_email_streamlit email_text summarizer)) = 1"
  by (simp add: summarize_email_streamlit_alt)

lemma perform_summarization_tkinter_error_within_clause:
  "generate summarizer
     \<lparr>call_text = take 1024 (preprocess_email_tkinter email_text), call_max_length = 150,
      call_min_length = 30, call_do_sample = False\<rparr> = Inl e \<Longrightarrow>
   run_scheduled Within_except_clause (perform_summarization_tkinter email_text summarizer)
     = [Error_box ''Summarization Error'' (''Failed to summarize the email:'' @ [nl] @ e)]"
  by (simp add: perform_summarization_tkinter_alt run_scheduled_def)

lemma perform_summarization_tkinter_error_after_clause:
  "generate summarizer
     \<lparr>call_text = take 1024 (preprocess_email_tkinter email_text), call_max_length = 150,
      call_min_length = 30, call_do_sample = False\<rparr> = Inl e \<Longrightarrow>
   run_scheduled After_except_clause (perform_summarization_tkinter email_text summarizer)
     = [Callback_raised ''NameError'']"
  by (simp add: perform_summarization_tkinter_alt run_scheduled_def)

section \<open>Lines, and substitutions anchored at the line start\<close>

lemma py_split_nl_unfold:
  "py_split_nl s =
     line_rest s # (case dropWhile (\<lambda>c. c \<noteq> nl) s of [] \<Rightarrow> [] | _ # r \<Rightarrow> py_split_nl r)"
  by (induction s) (auto simp: line_rest_def split: list.splits)

lemma py_split_nl_not_Nil [simp]: "py_split_nl s \<noteq> []"
  by (subst py_split_nl_unfold) simp


lemma py_join_nl_Cons: "py_join_nl (l # ls) = (if ls = [] then l else l @ nl # py_join_nl ls)"
  by (cases ls) simp_all

lemma py_join_map_split_unfold:
  "py_join_nl (map f (py_split_nl s)) =
     f (line_rest s) @
     (case dropWhile (\<lambda>c. c \<noteq> nl) s of
        [] \<Rightarrow> []
      | _ # r \<Rightarrow> nl # py_join_nl (map f (py_split_nl r)))"
proof (cases "dropWhile (\<lambda>c. c \<noteq> nl) s")
  case Nil
  then have "py_split_nl s = [line_rest s]"
    by (subst py_split_nl_unfold) (simp del: dropWhile_eq_Nil_conv)
  with Nil show ?thesis by (simp del: dropWhile_eq_Nil_conv)
next
  case (Cons x r)
  then have "py_split_nl s = line_rest s # py_split_nl r"
    by (subst py_split_nl_unfold) simp
  with Cons show ?thesis by (simp add: py_join_nl_Cons)
qed

lemma re_sub_mid_line:
  assumes m: "\<And>prev s. m prev s =
                (if at_line_start prev \<and> P s then Some (length (line_rest s)) else None)"
  shows "\<not> at_line_start prev \<Longrightarrow>
         re_sub m [] prev s =
           line_rest s @
           (case dropWhile (\<lambda>c. c \<noteq> nl) s of
              [] \<Rightarrow> []
            | _ # r \<Rightarrow> nl # re_sub m [] (Some nl) r)"
proof (induction s arbitrary: prev)
  case Nil
  show ?case by (simp add: line_rest_def)
next
  case (Cons c cs)
  have none: "m prev (c # cs) = None" using Cons.prems by (simp add: m)
  show ?case
  proof (cases "c = nl")
    case True
    with none show ?thesis by (simp add: re_sub_Cons line_rest_def)
  next
    case False
    then have "\<not> at_line_start (Some c)" by (simp add: at_line_start_def)
    from Cons.IH [OF this] False none show ?thesis
      by (simp add: re_sub_Cons line_rest_def)
  qed
qed

lemma line_rest_dropWhile [simp]: "line_rest (dropWhile (\<lambda>c. c \<noteq> nl) s) = []"
  by (induction s) (auto simp: line_rest_def)

lemma nth_line_rest_not_nl:
  "line_rest s \<noteq> [] \<Longrightarrow> s ! (length (line_rest s) - 1) \<noteq> nl"
proof -
  assume ne: "line_rest s \<noteq> []"
  let ?n = "length (line_rest s) - 1"
  have lt: "?n < length (line_rest s)" using ne by simp
  have "s ! ?n = line_rest s ! ?n"
    unfolding line_rest_def using lt
    by (metis line_rest_def takeWhile_nth)
  moreover have "line_rest s ! ?n \<in> set (line_rest s)" using lt by simp
  ultimately show ?thesis
    unfolding line_rest_def by (metis (mono_tags, lifting) set_takeWhileD)
qed

lemma re_sub_line_start:
  assumes m: "\<And>prev s. m prev s =
                (if at_line_start prev \<and> P s then Some (length (line_rest s)) else None)"
    and P_line: "\<And>s. P s = P (line_rest s)"
    and P_ne: "\<And>s. P s \<Longrightarrow> line_rest s \<noteq> []"
  shows "at_line_start prev \<Longrightarrow>
         re_sub m [] prev s =
           (if P (line_rest s) then [] else line_rest s) @
           (case dropWhile (\<lambda>c. c \<noteq> nl) s of
              [] \<Rightarrow> []
            | _ # r \<Rightarrow> nl # re_sub m [] (Some nl) r)"
proof -
  assume ls: "at_line_start prev"
  show ?thesis
  proof (cases "P s")
    case True
    let ?n = "length (line_rest s)"
    have ne: "line_rest s \<noteq> []" using P_ne [OF True] .
    then obtain c cs where s: "s = c # cs" by (cases s) (auto simp: line_rest_def)
    have n: "0 < ?n" "?n \<le> length s"
      using ne by (simp_all add: line_rest_def length_takeWhile_le)
    have mm: "m prev s = Some ?n" using ls True by (simp add: m)
    have dr: "drop ?n s = dropWhile (\<lambda>c. c \<noteq> nl) s"
      by (simp add: line_rest_def dropWhile_eq_drop)
    have "\<not> at_line_start (Some (s ! (?n - 1)))"
      using nth_line_rest_not_nl [OF ne] by (simp add: at_line_start_def)
    from re_sub_mid_line [of m P, OF m this, of "dropWhile (\<lambda>c. c \<noteq> nl) s"]
    have "re_sub m [] (Some (s ! (?n - 1))) (drop ?n s) =
            (case dropWhile (\<lambda>c. c \<noteq> nl) s of [] \<Rightarrow> [] | _ # r \<Rightarrow> nl # re_sub m [] (Some nl) r)"
      by (simp add: dr)
    moreover have "re_sub m [] prev s = re_sub m [] (Some (s ! (?n - 1))) (drop ?n s)"
      using mm n s by (simp add: re_sub_Cons)
    moreover have "P (line_rest s)" using True P_line by blast
    ultimately show ?thesis by simp
  next
    case False
    then have nP: "\<not> P (line_rest s)" using P_line by blast
    have none: "m prev s = None" using False by (simp add: m)
    show ?thesis
    proof (cases s)
      case Nil
      then show ?thesis using nP by (simp add: line_rest_def)
    next
      case (Cons c cs)
      show ?thesis
      proof (cases "c = nl")
        case True
        with Cons none nP show ?thesis by (simp add: re_sub_Cons line_rest_def)
      next
        case F: False
        then have "\<not> at_line_start (Some c)" by (simp add: at_line_start_def)
        from re_sub_mid_line [of m P, OF m this, of cs] F Cons none nP show ?thesis
          by (simp add: re_sub_Cons line_rest_def)
      qed
    qed
  qed
qed

lemma length_after_newline:
  "dropWhile (\<lambda>c. c \<noteq> nl) s = x # r \<Longrightarrow> length r < length s"
  by (metis length_dropWhile_le length_Cons less_Suc_eq_le not_less_eq_eq Suc_le_eq)

lemma re_sub_line_anchored_delete:
  assumes m: "\<And>prev s. m prev s =
                (if at_line_start prev \<and> P s then Some (length (line_rest s)) else None)"
    and P_line: "\<And>s. P s = P (line_rest s)"
    and P_ne: "\<And>s. P s \<Longrightarrow> line_rest s \<noteq> []"
  shows "at_line_start prev \<Longrightarrow>
         re_sub m [] prev s = py_join_nl (map (\<lambda>l. if P l then [] else l) (py_split_nl s))"
proof (induction s arbitrary: prev rule: length_induct)
  case (1 s)
  have nls: "at_line_start (Some nl)" by (simp add: at_line_start_def)
  show ?case
  proof (cases "dropWhile (\<lambda>c. c \<noteq> nl) s")
    case Nil
    then show ?thesis
      by (simp add: re_sub_line_start [of m P, OF m P_line P_ne "1.prems"]
            py_join_map_split_unfold [of _ s] del: dropWhile_eq_Nil_conv)
  next
    case (Cons x r)
    have "length r < length s" using length_after_newline [OF Cons] .
    with "1.IH" nls have "re_sub m [] (Some nl) r =
        py_join_nl (map (\<lambda>l. if P l then [] else l) (py_split_nl r))"
      by blast
    with Cons show ?thesis
      by (simp add: re_sub_line_start [of m P, OF m P_line P_ne "1.prems"]
            py_join_map_split_unfold [of _ s])
  qed
qed

lemma starts_with_line_rest:
  "nl \<notin> set p \<Longrightarrow> starts_with p (line_rest s) = starts_with p s"
proof (induction p arbitrary: s)
  case Nil
  show ?case by (simp add: starts_with_def)
next
  case (Cons a p)
  show ?case
  proof (cases s)
    case Nil
    then show ?thesis by (simp add: starts_with_def line_rest_def)
  next
    case (Cons c cs)
    from Cons.prems have "a \<noteq> nl" "nl \<notin> set p" by auto
    with Cons.IH [of cs] Cons show ?thesis
      by (auto simp: starts_with_def line_rest_def)
  qed
qed

lemma starts_with_Nil [simp]: "starts_with p [] = (p = [])"
  by (auto simp: starts_with_def)

lemma is_header_line_line_rest: "is_header_line (line_rest s) = is_header_line s"
  by (simp add: is_header_line_def header_labels_def starts_with_line_rest nl_def)

lemma is_header_line_not_empty: "is_header_line s \<Longrightarrow> line_rest s \<noteq> []"
  using is_header_line_line_rest [of s]
  by (auto simp: is_header_line_def header_labels_def)

lemma m_header_is_header_line:
  "m_header prev s =
     (if at_line_start prev \<and> is_header_line s then Some (length (line_rest s)) else None)"
  by (simp add: m_header_def is_header_line_def)

lemma re_sub_m_header: "re_sub m_header [] None s = delete_header_lines s"
  unfolding delete_header_lines_def
  by (rule re_sub_line_anchored_delete [of m_header is_header_line])
     (simp_all add: m_header_is_header_line is_header_line_line_rest is_header_line_not_empty
        at_line_start_def)

section \<open>The signature pattern\<close>

lemma lower_length_eq: "map lower a = map lower b \<Longrightarrow> length a = length b"
  by (metis length_map)

lemma skip_comma_space: "list_all is_space gap \<Longrightarrow> skip_comma (gap @ nl # rest) = gap @ nl # rest"
  by (cases gap) (auto simp: skip_comma_def is_space_def nl_def)

lemma nl_in_takeWhile_gap: "list_all is_space gap \<Longrightarrow> nl \<in> set (takeWhile is_space (gap @ nl # rest))"
proof -
  assume "list_all is_space gap"
  then have "takeWhile is_space (gap @ nl # rest) = gap @ takeWhile is_space (nl # rest)"
    by (simp add: list_all_iff takeWhile_append2)
  moreover have "is_space nl" by (simp add: is_space_def nl_def)
  ultimately show ?thesis by simp
qed

lemma takeWhile_space_split:
  "nl \<in> set (takeWhile is_space r) \<Longrightarrow>
   \<exists>gap rest. list_all is_space gap \<and> r = gap @ nl # rest"
proof -
  assume a: "nl \<in> set (takeWhile is_space r)"
  then obtain gap x where g: "takeWhile is_space r = gap @ nl # x"
    by (meson split_list)
  have "list_all is_space (takeWhile is_space r)"
    by (simp add: list_all_iff) (meson set_takeWhileD)
  with g have "list_all is_space gap" by simp
  moreover have "r = gap @ nl # (x @ dropWhile is_space r)"
    using g takeWhile_dropWhile_id [of is_space r] by (metis append.assoc append_Cons)
  ultimately show ?thesis by blast
qed

lemma salutation_at_iff:
  "salutation_at w s \<longleftrightarrow>
   (\<exists>word comma gap rest. map lower word = map lower w \<and> (comma = [] \<or> comma = '','') \<and>
      list_all is_space gap \<and> s = word @ comma @ gap @ nl # rest)"
proof
  assume sa: "salutation_at w s"
  then have ci: "map lower (take (length w) s) = map lower w"
    and mem: "nl \<in> set (takeWhile is_space (skip_comma (drop (length w) s)))"
    by (simp_all add: salutation_at_def ci_starts_with_def)
  from takeWhile_space_split [OF mem] obtain gap rest where
    g: "list_all is_space gap" "skip_comma (drop (length w) s) = gap @ nl # rest" by blast
  have s: "s = take (length w) s @ drop (length w) s" by simp
  show "\<exists>word comma gap rest. map lower word = map lower w \<and> (comma = [] \<or> comma = '','') \<and>
      list_all is_space gap \<and> s = word @ comma @ gap @ nl # rest"
  proof (cases "drop (length w) s")
    case Nil
    with g show ?thesis by (simp add: skip_comma_def)
  next
    case (Cons c cs)
    show ?thesis
    proof (cases "c = CHR '',''")
      case True
      with Cons g have "cs = gap @ nl # rest" by (simp add: skip_comma_def)
      with Cons True have "s = take (length w) s @ '','' @ gap @ nl # rest"
        using s by simp
      with ci g(1) show ?thesis by blast
    next
      case False
      with Cons g have "drop (length w) s = gap @ nl # rest" by (simp add: skip_comma_def)
      then have "s = take (length w) s @ [] @ gap @ nl # rest" using s by simp
      with ci g(1) show ?thesis by blast
    qed
  qed
next
  assume "\<exists>word comma gap rest. map lower word = map lower w \<and> (comma = [] \<or> comma = '','') \<and>
      list_all is_space gap \<and> s = word @ comma @ gap @ nl # rest"
  then obtain word comma gap rest where
    w: "map lower word = map lower w" and c: "comma = [] \<or> comma = '',''"
    and g: "list_all is_space gap" and s: "s = word @ comma @ gap @ nl # rest" by blast
  have len: "length word = length w" using w by (rule lower_length_eq)
  have ci: "ci_starts_with w s" using w len s by (simp add: ci_starts_with_def)
  have dr: "drop (length w) s = comma @ gap @ nl # rest" using len s by simp
  have "skip_comma (comma @ gap @ nl # rest) = gap @ nl # rest"
  proof (cases "comma = []")
    case True
    then show ?thesis using skip_comma_space [OF g, of rest] by simp
  next
    case False
    with c have "comma = '',''" by simp
    then show ?thesis by (simp add: skip_comma_def)
  qed
  with dr nl_in_takeWhile_gap [OF g, of rest] ci show "salutation_at w s"
    by (simp add: salutation_at_def)
qed

lemma signature_at_iff:
  "signature_at ws t i \<longleftrightarrow> i \<le> length t \<and> list_ex (\<lambda>w. salutation_at w (drop i t)) ws"
  unfolding signature_at_def list_ex_iff salutation_at_iff by blast

lemma salutation_at_Nil [simp]: "\<not> salutation_at w []"
  by (simp add: salutation_at_def skip_comma_def)

lemma re_sub_m_signature_Cons:
  "re_sub (m_signature ws) [] prev (c # cs) =
     (if list_ex (\<lambda>w. salutation_at w (c # cs)) ws then []
      else c # re_sub (m_signature ws) [] (Some c) cs)"
  by (simp add: re_sub_Cons m_signature_def)

lemma signature_at_0: "signature_at ws t 0 = list_ex (\<lambda>w. salutation_at w t) ws"
  by (simp add: signature_at_iff)

lemma signature_at_Suc: "signature_at ws (c # cs) (Suc i) = signature_at ws cs i"
  by (simp add: signature_at_iff)

lemma signature_at_Nil [simp]: "\<not> signature_at ws [] i"
  by (simp add: signature_at_iff list_ex_iff)

lemma re_sub_m_signature_first:
  "signature_at ws t i \<Longrightarrow> (\<forall>j<i. \<not> signature_at ws t j) \<Longrightarrow>
   re_sub (m_signature ws) [] prev t = take i t"
proof (induction i arbitrary: t prev)
  case 0
  then obtain c cs where t: "t = c # cs" by (cases t) auto
  with 0 show ?case by (simp add: re_sub_m_signature_Cons signature_at_0)
next
  case (Suc i)
  then obtain c cs where t: "t = c # cs" by (cases t) auto
  from Suc.prems(2) have no0: "\<not> signature_at ws t 0" by blast
  from Suc.prems(1) t have at: "signature_at ws cs i" by (simp add: signature_at_Suc)
  have "\<forall>j<i. \<not> signature_at ws cs j"
  proof (intro allI impI)
    fix j assume "j < i"
    then have "\<not> signature_at ws t (Suc j)" using Suc.prems(2) by simp
    then show "\<not> signature_at ws cs j" using t by (simp add: signature_at_Suc)
  qed
  from Suc.IH [OF at this] no0 t show ?case
    by (simp add: re_sub_m_signature_Cons signature_at_0)
qed

lemma re_sub_m_signature_none:
  "(\<forall>i. \<not> signature_at ws t i) \<Longrightarrow> re_sub (m_signature ws) [] prev t = t"
proof (induction t arbitrary: prev)
  case Nil
  show ?case by simp
next
  case (Cons c cs)
  from Cons.prems have no0: "\<not> signature_at ws (c # cs) 0" by blast
  have "\<forall>i. \<not> signature_at ws cs i"
    using Cons.prems signature_at_Suc [of ws c cs] by blast
  from Cons.IH [OF this] no0 show ?case
    by (simp add: re_sub_m_signature_Cons signature_at_0)
qed

section \<open>Fixed points of the steps\<close>

lemma py_strip_decomp:
  "\<exists>a b. s = a @ py_strip s @ b \<and> list_all is_space a \<and> list_all is_space b"
proof -
  let ?d = "dropWhile is_space s"
  let ?a = "takeWhile is_space s"
  let ?b = "rev (takeWhile is_space (rev ?d))"
  have 1: "s = ?a @ ?d" by simp
  have "rev (takeWhile is_space (rev ?d) @ dropWhile is_space (rev ?d)) = rev (rev ?d)"
    by (simp only: takeWhile_dropWhile_id)
  then have 2: "?d = py_strip s @ ?b" by (simp add: py_strip_def del: takeWhile_dropWhile_id)
  have a: "list_all is_space ?a" by (simp add: list_all_iff) (meson set_takeWhileD)
  have b: "list_all is_space ?b" by (simp add: list_all_iff) (meson set_takeWhileD)
  from 1 2 have "s = ?a @ py_strip s @ ?b" by simp
  with a b show ?thesis by blast
qed

lemma py_strip_fixed:
  "m = [] \<or> (\<not> is_space (hd m) \<and> \<not> is_space (last m)) \<Longrightarrow> py_strip m = m"
proof (cases "m = []")
  case True
  then show ?thesis by (simp add: py_strip_def)
next
  case False
  assume "m = [] \<or> (\<not> is_space (hd m) \<and> \<not> is_space (last m))"
  with False have h: "\<not> is_space (hd m)" and l: "\<not> is_space (last m)" by auto
  from False h have 1: "dropWhile is_space m = m" by (cases m) auto
  from False l have 2: "dropWhile is_space (rev m) = rev m"
    by (cases "rev m") (auto simp: last_rev [symmetric] hd_rev)
  show ?thesis by (simp add: py_strip_def 1 2)
qed

lemma py_strip_ends:
  "py_strip s \<noteq> [] \<Longrightarrow> \<not> is_space (hd (py_strip s)) \<and> \<not> is_space (last (py_strip s))"
proof -
  assume ne: "py_strip s \<noteq> []"
  let ?d = "dropWhile is_space s"
  let ?e = "dropWhile is_space (rev ?d)"
  have e: "?e \<noteq> []" using ne by (simp add: py_strip_def)
  then have "\<not> is_space (hd ?e)" by (rule hd_dropWhile)
  then have last: "\<not> is_space (last (py_strip s))"
    using e by (simp add: py_strip_def last_rev)
  have dne: "?d \<noteq> []"
  proof
    assume "?d = []"
    then have "?e = []" by (simp del: dropWhile_eq_Nil_conv)
    with e show False by simp
  qed
  then have hd: "\<not> is_space (hd ?d)" by (rule hd_dropWhile)
  obtain a b where ab: "?d = py_strip s @ b"
    using py_strip_decomp [of s]
    by (metis append_assoc py_strip_def rev_append rev_rev_ident takeWhile_dropWhile_id)
  with ne have "hd ?d = hd (py_strip s)" by (metis hd_append2)
  with hd last show ?thesis by simp
qed

lemma py_strip_idem: "py_strip (py_strip s) = py_strip s"
  using py_strip_ends [of s] by (intro py_strip_fixed) blast

lemma signature_at_embed:
  "signature_at ws m j \<Longrightarrow> signature_at ws (a @ m @ b) (length a + j)"
proof -
  assume "signature_at ws m j"
  then obtain w word comma gap rest where
    h: "w \<in> set ws" "map lower word = map lower w" "comma = [] \<or> comma = '',''"
       "list_all is_space gap" "j \<le> length m" "drop j m = word @ comma @ gap @ nl # rest"
    unfolding signature_at_def by blast
  have "drop (length a + j) (a @ m @ b) = drop j m @ b"
    using h(5) by (simp add: drop_append)
  with h(6) have "drop (length a + j) (a @ m @ b) = word @ comma @ gap @ nl # (rest @ b)"
    by simp
  moreover have "length a + j \<le> length (a @ m @ b)" using h(5) by simp
  ultimately show ?thesis
    unfolding signature_at_def using h(1-4) by blast
qed

lemma no_signature_middle: "no_signature ws (a @ m @ b) \<Longrightarrow> no_signature ws m"
  unfolding no_signature_def using signature_at_embed by blast

lemma no_signature_py_strip: "no_signature ws s \<Longrightarrow> no_signature ws (py_strip s)"
  using py_strip_decomp [of s] no_signature_middle by metis

lemma signature_at_lt: "signature_at ws s i \<Longrightarrow> i < length s"
  unfolding signature_at_def
  by (metis append_is_Nil_conv drop_all le_neq_implies_less list.distinct(1) order_refl)

lemma no_signature_re_sub: "no_signature ws (re_sub (m_signature ws) [] None s)"
proof (cases "\<exists>i. signature_at ws s i")
  case False
  then have "re_sub (m_signature ws) [] None s = s"
    by (intro re_sub_m_signature_none) blast
  with False show ?thesis by (simp add: no_signature_def)
next
  case True
  define i where "i = (LEAST i. signature_at ws s i)"
  have at: "signature_at ws s i" unfolding i_def using True by (metis LeastI)
  have before: "\<forall>j<i. \<not> signature_at ws s j"
    unfolding i_def using not_less_Least by blast
  have eq: "re_sub (m_signature ws) [] None s = take i s"
    using re_sub_m_signature_first [OF at before] .
  have "no_signature ws (take i s)"
    unfolding no_signature_def
  proof (intro allI notI)
    fix j assume a: "signature_at ws (take i s) j"
    from signature_at_embed [OF a, of "[]" "drop i s"]
    have "signature_at ws s j" by simp
    moreover from signature_at_lt [OF a] have "j < i" by simp
    ultimately show False using before by blast
  qed
  with eq show ?thesis by simp
qed

lemma re_sub_m_signature_fixed:
  "no_signature ws s \<Longrightarrow> re_sub (m_signature ws) [] prev s = s"
  unfolding no_signature_def by (rule re_sub_m_signature_none)

lemma re_sub_no_match:
  "(\<And>p i. m p (drop i s) = None) \<Longrightarrow> re_sub m repl prev s = s"
proof (induction s arbitrary: prev)
  case Nil
  show ?case by simp
next
  case (Cons c cs)
  have 0: "m prev (c # cs) = None" using Cons.prems [of prev 0] by simp
  have "\<And>p i. m p (drop i cs) = None" using Cons.prems [of _ "Suc _"] by simp
  from Cons.IH [OF this] 0 show ?case by (simp add: re_sub_Cons)
qed

section \<open>Newline runs, and the signature pattern under the later steps\<close>

lemma m_newlines3_None: "m_newlines3 p s = None \<longleftrightarrow> length (takeWhile (\<lambda>c. c = nl) s) < 3"
  by (auto simp: m_newlines3_def Let_def)

lemma m_newlines3_Some:
  "3 \<le> length (takeWhile (\<lambda>c. c = nl) s) \<Longrightarrow>
   m_newlines3 p s = Some (length (takeWhile (\<lambda>c. c = nl) s))"
  by (simp add: m_newlines3_def Let_def)

lemma re_sub_newlines3_other:
  "c \<noteq> nl \<Longrightarrow> re_sub m_newlines3 [nl, nl] prev (c # cs) = c # re_sub m_newlines3 [nl, nl] (Some c) cs"
  by (simp add: re_sub_Cons m_newlines3_def)

lemma re_sub_newlines3_short:
  "length (takeWhile (\<lambda>c. c = nl) (c # cs)) < 3 \<Longrightarrow>
   re_sub m_newlines3 [nl, nl] prev (c # cs) = c # re_sub m_newlines3 [nl, nl] (Some c) cs"
  using m_newlines3_None [of prev "c # cs"] by (simp add: re_sub_Cons)

lemma re_sub_newlines3_long:
  assumes "3 \<le> length (takeWhile (\<lambda>c. c = nl) s)"
  shows "\<exists>p. re_sub m_newlines3 [nl, nl] prev s =
           nl # nl # re_sub m_newlines3 [nl, nl] p (dropWhile (\<lambda>c. c = nl) s)"
proof -
  let ?k = "length (takeWhile (\<lambda>c. c = nl) s)"
  obtain c cs where s: "s = c # cs" using assms by (cases s) auto
  have k1: "0 < ?k" using assms by linarith
  have k2: "?k \<le> length s" by (rule length_takeWhile_le)
  note k = k1 k2
  have "re_sub m_newlines3 [nl, nl] prev s =
          [nl, nl] @ re_sub m_newlines3 [nl, nl] (Some (s ! (?k - 1))) (drop ?k s)"
    using m_newlines3_Some [OF assms, of prev] k s by (simp add: re_sub_Cons)
  then show ?thesis by (auto simp: dropWhile_eq_drop)
qed

lemma takeWhile_nl_dropWhile [simp]:
  "takeWhile (\<lambda>c. c = nl) (dropWhile (\<lambda>c. c = nl) s) = []"
  by (induction s) auto

lemma length_dropWhile_nl_less:
  "3 \<le> length (takeWhile (\<lambda>c. c = nl) s) \<Longrightarrow> length (dropWhile (\<lambda>c. c = nl) s) < length s"
proof -
  assume a: "3 \<le> length (takeWhile (\<lambda>c. c = nl) s)"
  have "length s = length (takeWhile (\<lambda>c. c = nl) s) + length (dropWhile (\<lambda>c. c = nl) s)"
    by (metis length_append takeWhile_dropWhile_id)
  with a show ?thesis by linarith
qed

lemma head_run_re_sub_newlines3:
  "length (takeWhile (\<lambda>c. c = nl) (re_sub m_newlines3 [nl, nl] prev s)) =
     min 2 (length (takeWhile (\<lambda>c. c = nl) s))"
proof (induction s arbitrary: prev rule: length_induct)
  case (1 s)
  show ?case
  proof (cases "3 \<le> length (takeWhile (\<lambda>c. c = nl) s)")
    case True
    from re_sub_newlines3_long [OF True, of prev] obtain p where
      eq: "re_sub m_newlines3 [nl, nl] prev s =
             nl # nl # re_sub m_newlines3 [nl, nl] p (dropWhile (\<lambda>c. c = nl) s)" by blast
    have "length (takeWhile (\<lambda>c. c = nl)
            (re_sub m_newlines3 [nl, nl] p (dropWhile (\<lambda>c. c = nl) s))) = 0"
      using "1.IH" length_dropWhile_nl_less [OF True] by simp
    with eq True show ?thesis by simp
  next
    case False
    show ?thesis
    proof (cases s)
      case Nil
      then show ?thesis by simp
    next
      case (Cons c cs)
      with False have eq: "re_sub m_newlines3 [nl, nl] prev s =
          c # re_sub m_newlines3 [nl, nl] (Some c) cs"
        by (simp add: re_sub_newlines3_short)
      have ih: "length (takeWhile (\<lambda>c. c = nl) (re_sub m_newlines3 [nl, nl] (Some c) cs)) =
          min 2 (length (takeWhile (\<lambda>c. c = nl) cs))"
        using "1.IH" Cons by simp
      show ?thesis using eq ih False Cons by (cases "c = nl") auto
    qed
  qed
qed

lemma no_run_re_sub_newlines3:
  "length (takeWhile (\<lambda>c. c = nl) (drop i (re_sub m_newlines3 [nl, nl] prev s))) < 3"
proof (induction s arbitrary: prev i rule: length_induct)
  case (1 s)
  have head: "\<And>p t. length (takeWhile (\<lambda>c. c = nl) (re_sub m_newlines3 [nl, nl] p t)) < 3"
    by (simp add: head_run_re_sub_newlines3)
  show ?case
  proof (cases i)
    case 0
    then show ?thesis using head by simp
  next
    case (Suc j)
    show ?thesis
    proof (cases "3 \<le> length (takeWhile (\<lambda>c. c = nl) s)")
      case True
      let ?r = "dropWhile (\<lambda>c. c = nl) s"
      from re_sub_newlines3_long [OF True, of prev] obtain p where
        eq: "re_sub m_newlines3 [nl, nl] prev s = nl # nl # re_sub m_newlines3 [nl, nl] p ?r"
        by blast
      have h0: "length (takeWhile (\<lambda>c. c = nl) (re_sub m_newlines3 [nl, nl] p ?r)) = 0"
        by (simp add: head_run_re_sub_newlines3)
      show ?thesis
      proof (cases j)
        case 0
        with Suc eq h0 show ?thesis by simp
      next
        case (Suc k)
        with \<open>i = Suc j\<close> eq "1.IH" length_dropWhile_nl_less [OF True] show ?thesis by simp
      qed
    next
      case False
      show ?thesis
      proof (cases s)
        case Nil
        then show ?thesis by simp
      next
        case (Cons c cs)
        with False have "re_sub m_newlines3 [nl, nl] prev s =
            c # re_sub m_newlines3 [nl, nl] (Some c) cs"
          by (simp add: re_sub_newlines3_short)
        with Suc Cons "1.IH" show ?thesis by simp
      qed
    qed
  qed
qed

lemma length_takeWhile_append_le:
  "length (takeWhile P x) \<le> length (takeWhile P (x @ y))"
  by (induction x) auto

lemma no_run_middle:
  assumes "\<And>i. length (takeWhile (\<lambda>c. c = nl) (drop i (a @ m @ b))) < 3"
  shows "length (takeWhile (\<lambda>c. c = nl) (drop i m)) < 3"
proof (cases "i \<le> length m")
  case False
  then show ?thesis by simp
next
  case True
  have "drop (length a + i) (a @ m @ b) = drop i m @ b" using True by simp
  then have "length (takeWhile (\<lambda>c. c = nl) (drop i m @ b)) < 3"
    using assms [of "length a + i"] by simp
  moreover have "length (takeWhile (\<lambda>c. c = nl) (drop i m))
      \<le> length (takeWhile (\<lambda>c. c = nl) (drop i m @ b))"
    by (rule length_takeWhile_append_le)
  ultimately show ?thesis by simp
qed

lemma re_sub_newlines3_fixed:
  "(\<And>i. length (takeWhile (\<lambda>c. c = nl) (drop i s)) < 3) \<Longrightarrow>
   re_sub m_newlines3 [nl, nl] prev s = s"
  by (rule re_sub_no_match) (simp add: m_newlines3_None)

lemma re_sub_newlines3_py_strip_fixed:
  "re_sub m_newlines3 [nl, nl] prev (py_strip (re_sub m_newlines3 [nl, nl] p s)) =
     py_strip (re_sub m_newlines3 [nl, nl] p s)"
proof (rule re_sub_newlines3_fixed)
  fix i
  obtain a b where ab: "re_sub m_newlines3 [nl, nl] p s =
      a @ py_strip (re_sub m_newlines3 [nl, nl] p s) @ b"
    using py_strip_decomp by blast
  have "\<And>i. length (takeWhile (\<lambda>c. c = nl) (drop i (a @ py_strip (re_sub m_newlines3 [nl, nl] p s) @ b))) < 3"
    using no_run_re_sub_newlines3 [of _ p s] ab by simp
  then show "length (takeWhile (\<lambda>c. c = nl) (drop i (py_strip (re_sub m_newlines3 [nl, nl] p s)))) < 3"
    by (rule no_run_middle)
qed

lemma lower_eq_nl: "lower c = nl \<longleftrightarrow> c = nl"
proof -
  have 1: "lower nl = nl" by (simp add: lower_def lower_table_def nl_def)
  have 2: "lower c = nl \<Longrightarrow> c = nl"
    by (auto simp: lower_def lower_table_def nl_def split: option.splits if_splits)
  from 1 2 show ?thesis by blast
qed

lemma nl_notin_lower_eq:
  "map lower word = map lower w \<Longrightarrow> nl \<notin> set w \<Longrightarrow> nl \<notin> set word"
proof
  assume eq: "map lower word = map lower w" and w: "nl \<notin> set w" and i: "nl \<in> set word"
  from i have "lower nl \<in> lower ` set word" by (rule imageI)
  then have "lower nl \<in> set (map lower word)" by (simp only: set_map)
  then have "lower nl \<in> set (map lower w)" by (simp only: eq)
  then obtain c where c: "c \<in> set w" "lower c = lower nl" by auto
  have "lower nl = nl" by (simp add: lower_eq_nl)
  with c have "c = nl" by (simp add: lower_eq_nl)
  with c w show False by simp
qed

lemma text_upto_newline: "nl \<in> set s \<Longrightarrow> \<exists>r. s = line_rest s @ nl # r"
proof -
  assume "nl \<in> set s"
  then have "dropWhile (\<lambda>c. c \<noteq> nl) s \<noteq> []" by simp
  then obtain x r where d: "dropWhile (\<lambda>c. c \<noteq> nl) s = x # r" by (cases "dropWhile (\<lambda>c. c \<noteq> nl) s") auto
  then have "x = nl" using hd_dropWhile [of "\<lambda>c. c \<noteq> nl" s] by auto
  with d have "s = line_rest s @ nl # r"
    unfolding line_rest_def by (metis takeWhile_dropWhile_id)
  then show ?thesis ..
qed

lemma line_rest_append: "line_rest (p @ x) = (if nl \<in> set p then line_rest p else p @ line_rest x)"
  unfolding line_rest_def by (induction p) auto

lemma salutation_at_first_line:
  assumes w: "nl \<notin> set w"
  shows "salutation_at w s \<longleftrightarrow> nl \<in> set s \<and> salutation_at w (line_rest s @ [nl])"
proof
  assume "salutation_at w s"
  then obtain word comma gap rest where
    h: "map lower word = map lower w" "comma = [] \<or> comma = '',''" "list_all is_space gap"
       "s = word @ comma @ gap @ nl # rest"
    unfolding salutation_at_iff by blast
  have nw: "nl \<notin> set word" using nl_notin_lower_eq [OF h(1) w] .
  have nc: "nl \<notin> set comma" using h(2) by (auto simp: nl_def)
  let ?g = "takeWhile (\<lambda>c. c \<noteq> nl) gap"
  have g: "list_all is_space ?g" using h(3) by (simp add: list_all_iff) (meson set_takeWhileD)
  have "line_rest (gap @ nl # rest) = ?g"
    unfolding line_rest_def by (induction gap) auto
  then have "line_rest s = word @ comma @ ?g"
    using nw nc h(4) by (simp add: line_rest_append)
  then have "line_rest s @ [nl] = word @ comma @ ?g @ nl # []" by simp
  then have "salutation_at w (line_rest s @ [nl])"
    unfolding salutation_at_iff using h(1,2) g by blast
  moreover have "nl \<in> set s" using h(4) by simp
  ultimately show "nl \<in> set s \<and> salutation_at w (line_rest s @ [nl])" by blast
next
  assume a: "nl \<in> set s \<and> salutation_at w (line_rest s @ [nl])"
  then obtain word comma gap rest where
    h: "map lower word = map lower w" "comma = [] \<or> comma = '',''" "list_all is_space gap"
       "line_rest s @ [nl] = word @ comma @ gap @ nl # rest"
    unfolding salutation_at_iff by blast
  from a text_upto_newline obtain r where "s = line_rest s @ nl # r" by blast
  then have "s = (line_rest s @ [nl]) @ r" by simp
  with h(4) have "s = word @ comma @ gap @ nl # (rest @ r)" by simp
  with h(1-3) show "salutation_at w s" unfolding salutation_at_iff by blast
qed

lemma line_rest_re_sub_newlines3:
  "line_rest (re_sub m_newlines3 [nl, nl] prev s) = line_rest s"
proof (induction s arbitrary: prev)
  case Nil
  show ?case by simp
next
  case (Cons c cs)
  show ?case
  proof (cases "c = nl")
    case False
    with Cons.IH show ?thesis by (simp add: re_sub_newlines3_other line_rest_def)
  next
    case True
    have "hd (re_sub m_newlines3 [nl, nl] prev (c # cs)) = nl \<and>
          re_sub m_newlines3 [nl, nl] prev (c # cs) \<noteq> []"
    proof (cases "3 \<le> length (takeWhile (\<lambda>c. c = nl) (c # cs))")
      case T: True
      from re_sub_newlines3_long [OF T, of prev] show ?thesis by auto
    next
      case False
      then show ?thesis using True by (simp add: re_sub_newlines3_short)
    qed
    then have "line_rest (re_sub m_newlines3 [nl, nl] prev (c # cs)) = []"
      unfolding line_rest_def by (cases "re_sub m_newlines3 [nl, nl] prev (c # cs)") auto
    with True show ?thesis by (simp add: line_rest_def)
  qed
qed

lemma nl_in_re_sub_newlines3:
  "nl \<in> set (re_sub m_newlines3 [nl, nl] prev s) \<longleftrightarrow> nl \<in> set s"
proof (induction s arbitrary: prev)
  case Nil
  show ?case by simp
next
  case (Cons c cs)
  show ?case
  proof (cases "c = nl")
    case False
    with Cons.IH show ?thesis by (simp add: re_sub_newlines3_other)
  next
    case True
    have "nl \<in> set (re_sub m_newlines3 [nl, nl] prev (c # cs))"
    proof (cases "3 \<le> length (takeWhile (\<lambda>c. c = nl) (c # cs))")
      case T: True
      from re_sub_newlines3_long [OF T, of prev] show ?thesis by auto
    next
      case False
      then show ?thesis using True by (simp add: re_sub_newlines3_short)
    qed
    with True show ?thesis by simp
  qed
qed

lemma salutation_at_append_cong:
  assumes w: "nl \<notin> set w" and l: "line_rest x = line_rest y" and n: "nl \<in> set x \<longleftrightarrow> nl \<in> set y"
  shows "salutation_at w (p @ x) = salutation_at w (p @ y)"
proof -
  have "line_rest (p @ x) = line_rest (p @ y)" using l by (simp add: line_rest_append)
  moreover have "nl \<in> set (p @ x) \<longleftrightarrow> nl \<in> set (p @ y)" using n by simp
  ultimately show ?thesis
    using salutation_at_first_line [OF w, of "p @ x"] salutation_at_first_line [OF w, of "p @ y"]
    by simp
qed

lemma signature_here_newlines3:
  assumes ws: "\<forall>w\<in>set ws. nl \<notin> set w"
  shows "list_ex (\<lambda>w. salutation_at w (p @ re_sub m_newlines3 [nl, nl] prev s)) ws =
         list_ex (\<lambda>w. salutation_at w (p @ s)) ws"
  unfolding list_ex_iff
  using ws salutation_at_append_cong [OF _ line_rest_re_sub_newlines3 nl_in_re_sub_newlines3]
  by blast

lemma no_signature_drop: "no_signature ws s \<longleftrightarrow> (\<forall>i. \<not> list_ex (\<lambda>w. salutation_at w (drop i s)) ws)"
proof -
  have "\<And>i. \<not> i \<le> length s \<Longrightarrow> \<not> list_ex (\<lambda>w. salutation_at w (drop i s)) ws"
    by (simp add: list_ex_iff)
  then show ?thesis unfolding no_signature_def signature_at_iff by blast
qed

lemma no_signature_suffix: "no_signature ws s \<Longrightarrow> no_signature ws (drop k s)"
  unfolding no_signature_drop by simp

lemma no_signature_re_sub_newlines3:
  assumes ws: "\<forall>w\<in>set ws. nl \<notin> set w"
  shows "no_signature ws s \<Longrightarrow> no_signature ws (re_sub m_newlines3 [nl, nl] prev s)"
proof (induction s arbitrary: prev rule: length_induct)
  case (1 s)
  note here = signature_here_newlines3 [OF ws]
  have s0: "\<And>k. \<not> list_ex (\<lambda>w. salutation_at w (drop k s)) ws"
    using "1.prems" unfolding no_signature_drop by blast
  show ?case
    unfolding no_signature_drop
  proof (intro allI)
    fix j
    show "\<not> list_ex (\<lambda>w. salutation_at w (drop j (re_sub m_newlines3 [nl, nl] prev s))) ws"
    proof (cases "3 \<le> length (takeWhile (\<lambda>c. c = nl) s)")
      case True
      let ?k = "length (takeWhile (\<lambda>c. c = nl) s)"
      let ?r = "dropWhile (\<lambda>c. c = nl) s"
      from re_sub_newlines3_long [OF True, of prev] obtain p where
        eq: "re_sub m_newlines3 [nl, nl] prev s = nl # nl # re_sub m_newlines3 [nl, nl] p ?r"
        by blast
      have r: "?r = drop ?k s" by (simp add: dropWhile_eq_drop)
      have sk: "s = replicate ?k nl @ ?r"
        by (metis (mono_tags, lifting) replicate_length_same set_takeWhileD takeWhile_dropWhile_id)
      have d2: "drop (?k - 2) s = [nl, nl] @ ?r"
      proof -
        have "drop (?k - 2) (replicate ?k nl @ ?r) = replicate 2 nl @ ?r"
          using True by simp
        then show ?thesis using sk by (simp add: numeral_2_eq_2)
      qed
      have d1: "drop (?k - 1) s = [nl] @ ?r"
      proof -
        have "drop (?k - 1) (replicate ?k nl @ ?r) = replicate 1 nl @ ?r"
          using True by simp
        then show ?thesis using sk by simp
      qed
      have ih: "no_signature ws (re_sub m_newlines3 [nl, nl] p ?r)"
        using "1.IH" length_dropWhile_nl_less [OF True] no_signature_suffix [OF "1.prems", of ?k] r
        by simp
      show ?thesis
      proof (cases j)
        case 0
        have "list_ex (\<lambda>w. salutation_at w ([nl, nl] @ re_sub m_newlines3 [nl, nl] p ?r)) ws =
              list_ex (\<lambda>w. salutation_at w ([nl, nl] @ ?r)) ws" by (rule here)
        with s0 [of "?k - 2"] d2 eq 0 show ?thesis by simp
      next
        case (Suc j1)
        show ?thesis
        proof (cases j1)
          case 0
          have "list_ex (\<lambda>w. salutation_at w ([nl] @ re_sub m_newlines3 [nl, nl] p ?r)) ws =
                list_ex (\<lambda>w. salutation_at w ([nl] @ ?r)) ws" by (rule here)
          with s0 [of "?k - 1"] d1 eq 0 Suc show ?thesis by simp
        next
          case (Suc j2)
          with \<open>j = Suc j1\<close> eq ih show ?thesis
            unfolding no_signature_drop by simp
        qed
      qed
    next
      case False
      show ?thesis
      proof (cases s)
        case Nil
        then show ?thesis by (simp add: list_ex_iff)
      next
        case (Cons c cs)
        with False have eq: "re_sub m_newlines3 [nl, nl] prev s =
            c # re_sub m_newlines3 [nl, nl] (Some c) cs"
          by (simp add: re_sub_newlines3_short)
        have ih: "no_signature ws (re_sub m_newlines3 [nl, nl] (Some c) cs)"
          using "1.IH" Cons no_signature_suffix [OF "1.prems", of 1] by simp
        show ?thesis
        proof (cases j)
          case 0
          have "list_ex (\<lambda>w. salutation_at w ([c] @ re_sub m_newlines3 [nl, nl] (Some c) cs)) ws =
                list_ex (\<lambda>w. salutation_at w ([c] @ cs)) ws" by (rule here)
          with s0 [of 0] Cons eq 0 show ?thesis by simp
        next
          case (Suc j1)
          with eq ih show ?thesis unfolding no_signature_drop by simp
        qed
      qed
    qed
  qed
qed

lemma salutations_streamlit_no_nl: "\<forall>w\<in>set salutations_streamlit. nl \<notin> set w"
  by (simp add: salutations_streamlit_def nl_def)

lemma preprocess_email_streamlit_fixed:
  assumes b: "re_sub m_blank_lines [nl, nl] None (preprocess_email_streamlit t) = preprocess_email_streamlit t"
    and h: "re_sub m_header [] None (preprocess_email_streamlit t) = preprocess_email_streamlit t"
    and q: "re_sub m_quote [] None (preprocess_email_streamlit t) = preprocess_email_streamlit t"
  shows "preprocess_email_streamlit (preprocess_email_streamlit t) = preprocess_email_streamlit t"
proof -
  define x where "x = re_sub m_quote [] None (re_sub m_header [] None (re_sub m_blank_lines [nl, nl] None t))"
  define y where "y = re_sub m_newlines3 [nl, nl] None (re_sub (m_signature salutations_streamlit) [] None x)"
  have out: "preprocess_email_streamlit t = py_strip y"
    by (simp add: preprocess_email_streamlit_def x_def y_def)
  have "no_signature salutations_streamlit (re_sub (m_signature salutations_streamlit) [] None x)"
    by (rule no_signature_re_sub)
  then have "no_signature salutations_streamlit y"
    unfolding y_def by (rule no_signature_re_sub_newlines3 [OF salutations_streamlit_no_nl])
  then have "no_signature salutations_streamlit (py_strip y)" by (rule no_signature_py_strip)
  then have s: "re_sub (m_signature salutations_streamlit) [] None (py_strip y) = py_strip y"
    by (rule re_sub_m_signature_fixed)
  have n: "re_sub m_newlines3 [nl, nl] None (py_strip y) = py_strip y"
    unfolding y_def by (rule re_sub_newlines3_py_strip_fixed)
  have "preprocess_email_streamlit (py_strip y) = py_strip y"
    using b h q unfolding out
    by (simp add: preprocess_email_streamlit_def [of "py_strip y"] s n py_strip_idem)
  then show ?thesis unfolding out .
qed

lemma preprocess_email_tkinter_fixed:
  assumes b: "re_sub m_blank_lines [nl, nl] None (preprocess_email_tkinter t) = preprocess_email_tkinter t"
    and h: "re_sub m_header [] None (preprocess_email_tkinter t) = preprocess_email_tkinter t"
    and q: "re_sub m_quote [] None (preprocess_email_tkinter t) = preprocess_email_tkinter t"
  shows "preprocess_email_tkinter (preprocess_email_tkinter t) = preprocess_email_tkinter t"
proof -
  define x where "x = re_sub m_quote [] None (re_sub m_header [] None (re_sub m_blank_lines [nl, nl] None t))"
  define y where "y = re_sub (m_signature salutations_tkinter) [] None x"
  have out: "preprocess_email_tkinter t = py_strip y"
    by (simp add: preprocess_email_tkinter_def x_def y_def)
  have "no_signature salutations_tkinter y"
    unfolding y_def by (rule no_signature_re_sub)
  then have "no_signature salutations_tkinter (py_strip y)" by (rule no_signature_py_strip)
  then have s: "re_sub (m_signature salutations_tkinter) [] None (py_strip y) = py_strip y"
    by (rule re_sub_m_signature_fixed)
  have "preprocess_email_tkinter (py_strip y) = py_strip y"
    using b h q unfolding out
    by (simp add: preprocess_email_tkinter_def [of "py_strip y"] s py_strip_idem)
  then show ?thesis unfolding out .
qed

section \<open>The claims\<close>

text \<open>
  C10. For every input text, the output of \<open>preprocess_email\<close> is never longer than
  the input, in both variants: every substitution deletes its match or replaces it by a
  text that is no longer, and \<open>strip\<close> only removes characters.
\<close>

theorem preprocess_email_never_longer:
  "length (preprocess_email_streamlit t) \<le> length t \<and>
   length (preprocess_email_tkinter t) \<le> length t"
proof
  let ?a = "re_sub m_blank_lines [nl, nl] None t"
  let ?b = "re_sub m_header [] None ?a"
  let ?c = "re_sub m_quote [] None ?b"
  let ?d = "re_sub (m_signature salutations_streamlit) [] None ?c"
  let ?d' = "re_sub (m_signature salutations_tkinter) [] None ?c"
  let ?e = "re_sub m_newlines3 [nl, nl] None ?d"
  have a: "length ?a \<le> length t" by (rule re_sub_blank_length)
  have b: "length ?b \<le> length ?a" by (rule re_sub_delete_length)
  have c: "length ?c \<le> length ?b" by (rule re_sub_delete_length)
  have d: "length ?d \<le> length ?c" by (rule re_sub_delete_length)
  have d': "length ?d' \<le> length ?c" by (rule re_sub_delete_length)
  have e: "length ?e \<le> length ?d" by (rule re_sub_newlines3_length)
  have "length (py_strip ?e) \<le> length ?e" by (rule py_strip_length)
  with a b c d e show "length (preprocess_email_streamlit t) \<le> length t"
    by (simp add: preprocess_email_streamlit_def Let_def)
  have "length (py_strip ?d') \<le> length ?d'" by (rule py_strip_length)
  with a b c d' show "length (preprocess_email_tkinter t) \<le> length t"
    by (simp add: preprocess_email_tkinter_def Let_def)
qed

text \<open>
  C1. A text whose preprocessed body is longer than 1024 characters is cut to its first
  1024 characters before the summarizer is called, and a warning is shown. The Streamlit
  variant does both (\<open>summarize_email_streamlit_calls\<close>,
  \<open>summarize_email_streamlit_warns\<close>). The Tkinter variant cuts the text but shows
  no warning: for a body of 2000 letters the summarizer gets the first 1024, and whatever
  the summarizer does and whenever the scheduled callback runs, no warning is among the
  effects.
\<close>

theorem perform_summarization_tkinter_truncates_silently:
  "length (preprocess_email_tkinter (replicate 2000 CHR ''a'')) = 2000 \<and>
   map call_text (tk_calls (perform_summarization_tkinter (replicate 2000 CHR ''a'') summarizer))
     = [replicate 1024 CHR ''a''] \<and>
   Warning_shown w \<notin> set (run_scheduled t
     (perform_summarization_tkinter (replicate 2000 CHR ''a'') summarizer))"
  by (simp add: preprocess_email_tkinter_replicate_a perform_summarization_tkinter_def
        run_scheduled_def Let_def split: sum.splits prod.splits callback_time.splits option.splits)

text \<open>
  C2. Both variants call the summarizer exactly once, with the text cut to 1024 characters,
  \<open>max_length=150\<close>, \<open>min_length=30\<close> and \<open>do_sample=False\<close>. When the
  summarizer returns a non-empty list whose first candidate has a \<open>summary_text\<close>,
  the Streamlit variant returns success with exactly that text as the summary, and the
  Tkinter variant displays exactly that text.
\<close>

theorem summarizer_call_and_success:
  assumes "c_web = \<lparr>call_text = take 1024 (preprocess_email_streamlit email_text),
             call_max_length = 150, call_min_length = 30, call_do_sample = False\<rparr>"
    and "c_desk = \<lparr>call_text = take 1024 (preprocess_email_tkinter email_text),
             call_max_length = 150, call_min_length = 30, call_do_sample = False\<rparr>"
  shows "res_calls (summarize_email_streamlit email_text summarizer) = [c_web] \<and>
         tk_calls (perform_summarization_tkinter email_text summarizer) = [c_desk] \<and>
         (summarizer c_web = Returns (cand # rest) \<and> cand ''summary_text'' = Some summary_text \<longrightarrow>
            res_success (summarize_email_streamlit email_text summarizer) = True \<and>
            res_summary (summarize_email_streamlit email_text summarizer) = summary_text \<and>
            res_subject (summarize_email_streamlit email_text summarizer)
              = extract_subject_streamlit email_text) \<and>
         (summarizer c_desk = Returns (cand # rest) \<and> cand ''summary_text'' = Some summary_text \<longrightarrow>
            run_scheduled t (perform_summarization_tkinter email_text summarizer)
              = [Results_displayed (extract_subject_tkinter email_text) summary_text])"
  unfolding assms
  by (simp add: summarize_email_streamlit_alt perform_summarization_tkinter_alt
        generate_def first_summary_text_def run_scheduled_def split: sum.splits)

theorem summarizer_call_and_success_witness:
  "res_calls (summarize_email_streamlit ''Hello team'' (\<lambda>c. Returns [[''summary_text'' \<mapsto> ''short summary'']]))
     = [\<lparr>call_text = ''Hello team'', call_max_length = 150, call_min_length = 30, call_do_sample = False\<rparr>] \<and>
   res_success (summarize_email_streamlit ''Hello team'' (\<lambda>c. Returns [[''summary_text'' \<mapsto> ''short summary'']])) = True \<and>
   res_summary (summarize_email_streamlit ''Hello team'' (\<lambda>c. Returns [[''summary_text'' \<mapsto> ''short summary'']]))
     = ''short summary'' \<and>
   run_scheduled After_except_clause
     (perform_summarization_tkinter ''Hello team'' (\<lambda>c. Returns [[''summary_text'' \<mapsto> ''short summary'']]))
     = [Results_displayed ''Hello team'' ''short summary'']"
proof -
  have w: "preprocess_email_streamlit ''Hello team'' = ''Hello team''" by code_simp
  have d: "preprocess_email_tkinter ''Hello team'' = ''Hello team''" by code_simp
  have s: "extract_subject_tkinter ''Hello team'' = ''Hello team''" by code_simp
  show ?thesis
    using summarizer_call_and_success [OF refl refl, of "''Hello team''"
        "\<lambda>c. Returns [[''summary_text'' \<mapsto> ''short summary'']]"
        "[''summary_text'' \<mapsto> ''short summary'']" "[]" "''short summary''" After_except_clause]
    by (simp add: w d s)
qed

text \<open>
  C3. When the summarizer raises, the failure reaches the user as a message that holds the
  description of the exception. The Streamlit variant returns such a message
  (\<open>summarize_email_streamlit_failure\<close>). In the Tkinter variant the callback that
  would show it reads \<open>e\<close> when it runs; run after the worker has left the
  \<open>except\<close> clause it raises \<open>NameError\<close> and no error box is shown. The
  theorem evaluates both variants for a summarizer that raises "connection reset".
\<close>

theorem perform_summarization_tkinter_error_lost:
  "run_scheduled After_except_clause
     (perform_summarization_tkinter ''Hello team'' (\<lambda>c. Raises ''connection reset''))
     = [Callback_raised ''NameError''] \<and>
   res_summary (summarize_email_streamlit ''Hello team'' (\<lambda>c. Raises ''connection reset''))
     = ''Error generating summary: connection reset''"
  by (simp add: perform_summarization_tkinter_alt summarize_email_streamlit_alt run_scheduled_def
        generate_def)

text \<open>
  C5. A leading "Subject:" label is removed from the subject. On the input
  "Subject: Hello World", a newline, "Body..." the Streamlit variant returns
  "Hello World"; the Tkinter variant has no such step and returns
  "Subject: Hello World".
\<close>

theorem extract_subject_tkinter_keeps_label:
  "extract_subject_tkinter ''Subject: Hello World\<newline>Body...'' = ''Subject: Hello World'' \<and>
   extract_subject_streamlit ''Subject: Hello World\<newline>Body...'' = ''Hello World''"
  by code_simp



text \<open>
  C6. As amended: header-line removal is performed by both variants. In each,
  \<open>preprocess_email\<close> is the line-by-line deletion of header lines, applied to the
  text with its blank lines collapsed, followed by the later steps of that variant.
\<close>

theorem header_lines_deleted_in_both_variants:
  "preprocess_email_streamlit t =
     py_strip (re_sub m_newlines3 [nl, nl] None
       (re_sub (m_signature salutations_streamlit) [] None
         (re_sub m_quote [] None
           (delete_header_lines (re_sub m_blank_lines [nl, nl] None t))))) \<and>
   preprocess_email_tkinter t =
     py_strip (re_sub (m_signature salutations_tkinter) [] None
       (re_sub m_quote [] None
         (delete_header_lines (re_sub m_blank_lines [nl, nl] None t))))"
  by (simp add: preprocess_email_streamlit_def preprocess_email_tkinter_def re_sub_m_header)

theorem header_lines_deleted_in_both_variants_witness:
  "preprocess_email_streamlit ''From: alice@example.com\<newline>Hello'' = ''Hello'' \<and>
   preprocess_email_tkinter ''From: alice@example.com\<newline>Hello'' = ''Hello'' \<and>
   delete_header_lines ''From: alice@example.com\<newline>Hello'' = ''\<newline>Hello''"
proof -
  have a: "re_sub m_blank_lines [nl, nl] None ''From: alice@example.com\<newline>Hello''
             = ''From: alice@example.com\<newline>Hello''"
    by code_simp
  have b: "delete_header_lines ''From: alice@example.com\<newline>Hello'' = ''\<newline>Hello''"
    by code_simp
  have c: "py_strip (re_sub m_newlines3 [nl, nl] None
       (re_sub (m_signature salutations_streamlit) [] None
         (re_sub m_quote [] None ''\<newline>Hello''))) = ''Hello''"
    by code_simp
  have d: "py_strip (re_sub (m_signature salutations_tkinter) [] None
         (re_sub m_quote [] None ''\<newline>Hello'')) = ''Hello''"
    by code_simp
  show ?thesis
    using header_lines_deleted_in_both_variants [of "''From: alice@example.com\<newline>Hello''"]
    by (simp add: a b c d)
qed

text \<open>
  The claim says the Tkinter variant leaves header lines in place. It deletes them.
\<close>

theorem tkinter_deletes_header_lines_counterexample:
  "preprocess_email_tkinter ''From: alice@example.com\<newline>Hello'' = ''Hello'' \<and>
   preprocess_email_tkinter ''From: alice@example.com\<newline>Hello''
     \<noteq> py_strip ''From: alice@example.com\<newline>Hello''"
  by code_simp

text \<open>
  C7. The signature step removes a trailing signature block, which starts with a line
  that consists of a closing salutation: on "Body text", "Best regards," and "John Doe"
  on three lines both variants return "Body text". The pattern of the step is not tied to
  the start of a line, unlike the header pattern of the same function, which leaves a
  label in the middle of a line alone. In the two lines "Please pass on my thanks" and
  "to the whole team." no line consists of a salutation, and still the step cuts the text
  at the word "thanks", which only ends a line: both variants return "Please pass on my"
  and the rest of the message is lost.
\<close>

theorem signature_step_deletes_prose:
  "\<not> list_ex (is_salutation_line salutations_streamlit)
       (py_split_nl ''Please pass on my thanks\<newline>to the whole team.'') \<and>
   re_sub (m_signature salutations_streamlit) [] None
       ''Please pass on my thanks\<newline>to the whole team.'' = ''Please pass on my '' \<and>
   re_sub (m_signature salutations_tkinter) [] None
       ''Please pass on my thanks\<newline>to the whole team.'' = ''Please pass on my '' \<and>
   preprocess_email_streamlit ''Please pass on my thanks\<newline>to the whole team.''
     = ''Please pass on my'' \<and>
   preprocess_email_tkinter ''Please pass on my thanks\<newline>to the whole team.''
     = ''Please pass on my'' \<and>
   re_sub m_header [] None ''Please pass it To: the team\<newline>today.''
     = ''Please pass it To: the team\<newline>today.'' \<and>
   preprocess_email_streamlit ''Body text\<newline>Best regards,\<newline>John Doe'' = ''Body text'' \<and>
   preprocess_email_tkinter ''Body text\<newline>Best regards,\<newline>John Doe'' = ''Body text''"
  by code_simp

text \<open>
  C8. As amended: \<open>preprocess_email\<close> applied to its own output returns that output
  unchanged whenever the output has no header line and no quoted line left (such a line
  appears at the start of the output when whitespace stood before it in the input) and no
  run of blank lines that the first step would still collapse (the Tkinter variant leaves
  such a run where it deleted a header or quoted line).
\<close>

theorem preprocess_email_idempotent_on_clean_output:
  "(re_sub m_blank_lines [nl, nl] None (preprocess_email_streamlit t) = preprocess_email_streamlit t \<and>
    re_sub m_header [] None (preprocess_email_streamlit t) = preprocess_email_streamlit t \<and>
    re_sub m_quote [] None (preprocess_email_streamlit t) = preprocess_email_streamlit t \<longrightarrow>
    preprocess_email_streamlit (preprocess_email_streamlit t) = preprocess_email_streamlit t) \<and>
   (re_sub m_blank_lines [nl, nl] None (preprocess_email_tkinter t) = preprocess_email_tkinter t \<and>
    re_sub m_header [] None (preprocess_email_tkinter t) = preprocess_email_tkinter t \<and>
    re_sub m_quote [] None (preprocess_email_tkinter t) = preprocess_email_tkinter t \<longrightarrow>
    preprocess_email_tkinter (preprocess_email_tkinter t) = preprocess_email_tkinter t)"
  using preprocess_email_streamlit_fixed [of t] preprocess_email_tkinter_fixed [of t] by blast

theorem preprocess_email_idempotent_on_clean_output_witness:
  "preprocess_email_streamlit ''Hi Bob,\<newline>\<newline>\<newline>see you\<newline>Thanks,\<newline>Al'' = ''Hi Bob,\<newline>\<newline>see you'' \<and>
   preprocess_email_streamlit ''Hi Bob,\<newline>\<newline>see you'' = ''Hi Bob,\<newline>\<newline>see you'' \<and>
   preprocess_email_tkinter ''Hi Bob,\<newline>\<newline>\<newline>see you\<newline>Thanks,\<newline>Al'' = ''Hi Bob,\<newline>\<newline>see you'' \<and>
   preprocess_email_tkinter ''Hi Bob,\<newline>\<newline>see you'' = ''Hi Bob,\<newline>\<newline>see you''"
proof -
  let ?t = "''Hi Bob,\<newline>\<newline>\<newline>see you\<newline>Thanks,\<newline>Al''"
  let ?o = "''Hi Bob,\<newline>\<newline>see you''"
  have w: "preprocess_email_streamlit ?t = ?o" by code_simp
  have d: "preprocess_email_tkinter ?t = ?o" by code_simp
  have b: "re_sub m_blank_lines [nl, nl] None ?o = ?o" by code_simp
  have h: "re_sub m_header [] None ?o = ?o" by code_simp
  have q: "re_sub m_quote [] None ?o = ?o" by code_simp
  from preprocess_email_idempotent_on_clean_output [of ?t] w d b h q
  show ?thesis by simp
qed

text \<open>
  Idempotence fails on a body with a single header line behind two spaces: the final
  \<open>strip\<close> moves the line to the start of the output, where a second run deletes
  it. In the Tkinter variant it also fails where a deleted header line leaves three
  newlines in a row.
\<close>

theorem preprocess_email_not_idempotent_counterexample:
  "preprocess_email_streamlit ''  From: a\<newline>Hello'' = ''From: a\<newline>Hello'' \<and>
   preprocess_email_streamlit ''From: a\<newline>Hello'' = ''Hello'' \<and>
   preprocess_email_tkinter ''  From: a\<newline>Hello'' = ''From: a\<newline>Hello'' \<and>
   preprocess_email_tkinter ''From: a\<newline>Hello'' = ''Hello'' \<and>
   preprocess_email_tkinter ''A\<newline>From: x\<newline>\<newline>B'' = ''A\<newline>\<newline>\<newline>B'' \<and>
   preprocess_email_tkinter ''A\<newline>\<newline>\<newline>B'' = ''A\<newline>\<newline>B''"
  by code_simp

end
